theory Spec2Isabelle
  imports Complex_Main
begin

section \<open>Data model of \<open>StepTour.tsx\<close>\<close>

text \<open>
  A callback supplied by the caller is opaque code. It is modelled by a token, and
  invoking it appends an event to the trace of the component. The event records which
  property was invoked (\<open>step.onEnter\<close>, \<open>intro.onNext\<close>, the tour's \<open>onClose\<close>, ...)
  together with the token of the function.
\<close>

type_synonym callback = nat

datatype event =
    StepOnEnter callback
  | StepOnNext callback
  | IntroOnEnter callback
  | IntroOnNext callback
  | IntroOnClose callback
  | OutroOnEnter callback
  | OutroOnNext callback
  | OutroOnClose callback
  | PropsOnClose callback

text \<open>
  The optional call \<^verbatim>\<open>f?.()\<close>: nothing happens when the property is undefined.
\<close>

fun fire :: "(callback \<Rightarrow> event) \<Rightarrow> callback option \<Rightarrow> event list" where
  "fire k None = []"
| "fire k (Some c) = [k c]"

text \<open>
  \<^verbatim>\<open>TourStep\<close>, \<^verbatim>\<open>TourIntro\<close> and \<^verbatim>\<open>TourOutro\<close>. The label and text properties
  (\<^verbatim>\<open>title\<close>, \<^verbatim>\<open>description\<close>, \<^verbatim>\<open>nextLabel\<close>, ...) only reach the markup and are left
  out. The intro object is compared by identity in a dependency array, so it carries
  the identity of the object as \<open>intro_ident\<close>.
\<close>

record TourStep =
  step_id :: string
  selector :: string
  step_onEnter :: "callback option"
  step_onNext :: "callback option"

record TourIntro =
  intro_ident :: nat
  intro_onNext :: "callback option"
  intro_onEnter :: "callback option"
  intro_onClose :: "callback option"

record TourOutro =
  outro_onNext :: "callback option"
  outro_onEnter :: "callback option"
  outro_onClose :: "callback option"

text \<open>\<^verbatim>\<open>StepTourProps\<close>; the property \<^verbatim>\<open>open\<close> is written \<open>open'\<close>.\<close>

record StepTourProps =
  open' :: bool
  steps :: "TourStep list"
  onClose :: "callback option"
  intro :: "TourIntro option"
  outro :: "TourOutro option"

text \<open>
  The state of one mounted component: the three \<^verbatim>\<open>useState\<close> cells, the two
  \<^verbatim>\<open>useRef\<close> cells, the cache of \<^verbatim>\<open>useMemo\<close> (the dependencies it was computed for
  and its value), the dependency arrays each \<^verbatim>\<open>useEffect\<close> last ran with
  (\<open>None\<close> before the first commit), and the trace of callbacks invoked so far.
\<close>

record StepTourState =
  index :: int
  showIntro :: bool
  showOutro :: bool
  introShownRef :: bool
  stepsRef :: "TourStep list"
  current_deps :: "(bool \<times> bool \<times> int) option"
  current_val :: "TourStep option"
  deps_reset :: "(bool \<times> int \<times> nat) option"
  deps_latch :: "(bool \<times> nat option) option"
  deps_enter :: "(int \<times> bool \<times> bool) option"
  trace :: "event list"

text \<open>Reading a JavaScript array: \<^verbatim>\<open>xs[i]\<close> is \<^verbatim>\<open>undefined\<close> out of range.\<close>

definition steps_at :: "TourStep list \<Rightarrow> int \<Rightarrow> TourStep option" where
  "steps_at xs i = (if 0 \<le> i \<and> i < int (length xs) then Some (xs ! nat i) else None)"

text \<open>\<^verbatim>\<open>steps[i]?.onEnter?.()\<close> and \<^verbatim>\<open>current?.onNext?.()\<close>.\<close>

definition fire_step_onEnter :: "TourStep option \<Rightarrow> event list" where
  "fire_step_onEnter c = (case c of None \<Rightarrow> [] | Some st \<Rightarrow> fire StepOnEnter (step_onEnter st))"

definition fire_step_onNext :: "TourStep option \<Rightarrow> event list" where
  "fire_step_onNext c = (case c of None \<Rightarrow> [] | Some st \<Rightarrow> fire StepOnNext (step_onNext st))"

section \<open>Mounting, rendering and effects\<close>

text \<open>The initial values of the hooks on the first render (lines 72 to 76).\<close>

definition mount :: "StepTourProps \<Rightarrow> StepTourState" where
  "mount p = \<lparr> index = 0, showIntro = False, showOutro = False, introShownRef = False,
     stepsRef = steps p, current_deps = None, current_val = None,
     deps_reset = None, deps_latch = None, deps_enter = None, trace = [] \<rparr>"

text \<open>
  The render itself only evaluates \<^verbatim>\<open>useMemo\<close> (lines 125 to 128): \<^verbatim>\<open>current\<close> is
  recomputed when one of \<^verbatim>\<open>[open, showIntro, index]\<close> changed, and it reads
  \<^verbatim>\<open>stepsRef.current\<close> as the effects of the previous commit left it.
\<close>

definition render_memo :: "StepTourProps \<Rightarrow> StepTourState \<Rightarrow> StepTourState" where
  "render_memo p s =
     (let d = (open' p, showIntro s, index s) in
      if current_deps s = Some d then s
      else s\<lparr> current_deps := Some d,
              current_val := (if open' p \<and> \<not> showIntro s
                              then steps_at (stepsRef s) (index s) else None) \<rparr>)"

text \<open>
  The effects run after the render, in the order of the source, each only when its
  dependency array changed. An effect reads the state cells as the render saw them
  (the snapshot \<open>r\<close>), reads and writes the refs in place, and its state updates take
  effect for the next render.

  Lines 78 to 80. Assigning the same array again changes nothing, so the assignment is
  made on every commit.
\<close>

definition effect_stepsRef :: "StepTourProps \<Rightarrow> StepTourState \<Rightarrow> StepTourState" where
  "effect_stepsRef p s = s\<lparr> stepsRef := steps p \<rparr>"

text \<open>Lines 83 to 88: reset the index when the steps array becomes shorter.\<close>

definition effect_reset :: "StepTourProps \<Rightarrow> StepTourState \<Rightarrow> StepTourState \<Rightarrow> StepTourState" where
  "effect_reset p r s =
     (let d = (open' p, index r, length (steps p)) in
      if deps_reset s = Some d then s
      else let s1 = s\<lparr> deps_reset := Some d \<rparr> in
        if \<not> open' p then s1
        else if index r \<ge> int (length (stepsRef s1)) then s1\<lparr> index := 0 \<rparr>
        else s1)"

text \<open>Lines 90 to 108: the reset on close and the latch of the first \<^verbatim>\<open>onEnter\<close>.\<close>

definition effect_latch :: "StepTourProps \<Rightarrow> StepTourState \<Rightarrow> StepTourState \<Rightarrow> StepTourState" where
  "effect_latch p r s =
     (let d = (open' p, map_option intro_ident (intro p)) in
      if deps_latch s = Some d then s
      else let s1 = s\<lparr> deps_latch := Some d \<rparr> in
        if \<not> open' p
        then s1\<lparr> index := 0, showIntro := False, showOutro := False, introShownRef := False \<rparr>
        else if introShownRef s1 then s1
        else let s2 = s1\<lparr> introShownRef := True \<rparr> in
          (case intro p of
             Some i \<Rightarrow> s2\<lparr> showIntro := True, trace := trace s2 @ fire IntroOnEnter (intro_onEnter i) \<rparr>
           | None \<Rightarrow> s2\<lparr> trace := trace s2 @ fire_step_onEnter (steps_at (stepsRef s2) 0) \<rparr>))"

text \<open>Lines 110 to 113: \<^verbatim>\<open>onEnter\<close> of the step at the index.\<close>

definition effect_enter :: "StepTourProps \<Rightarrow> StepTourState \<Rightarrow> StepTourState \<Rightarrow> StepTourState" where
  "effect_enter p r s =
     (let d = (index r, open' p, showIntro r) in
      if deps_enter s = Some d then s
      else let s1 = s\<lparr> deps_enter := Some d \<rparr> in
        if \<not> open' p \<or> showIntro r then s1
        else s1\<lparr> trace := trace s1 @ fire_step_onEnter (steps_at (stepsRef s1) (index r)) \<rparr>)"

text \<open>
  One render followed by its effects. The effect that locks the background scroll
  (lines 116 to 123) touches only the style of the document and is left out.
\<close>

definition pass :: "StepTourProps \<Rightarrow> StepTourState \<Rightarrow> StepTourState" where
  "pass p s =
     (let r = render_memo p s in
      effect_enter p r (effect_latch p r (effect_reset p r (effect_stepsRef p r))))"

text \<open>
  A state update made by an effect schedules another render; an update that leaves
  every state cell as it was does not. \<open>rerender_measure\<close> bounds the number of
  renders that remain.
\<close>

definition cells :: "StepTourState \<Rightarrow> int \<times> bool \<times> bool" where
  "cells s = (index s, showIntro s, showOutro s)"

definition rerender_measure :: "StepTourProps \<times> StepTourState \<Rightarrow> nat" where
  "rerender_measure ps =
     (case ps of (p, s) \<Rightarrow>
        if deps_latch s \<noteq> Some (open' p, map_option intro_ident (intro p)) then 2
        else if deps_reset s \<noteq> Some (open' p, index s, length (steps p))
                \<and> open' p \<and> index s \<ge> int (length (steps p)) \<and> index s \<noteq> 0 then 1
        else 0)"

function commit :: "StepTourProps \<Rightarrow> StepTourState \<Rightarrow> StepTourState" where
  "commit p s = (let s1 = pass p s in if cells s1 = cells s then s1 else commit p s1)"
  by pat_completeness auto

section \<open>Event handlers\<close>

text \<open>
  A handler is a closure of the last render: it reads \<^verbatim>\<open>index\<close> and \<^verbatim>\<open>current\<close> as that
  render computed them, reads and writes the refs in place, and queues its state
  updates, which the next render applies in order.

  Lines 130 to 136.
\<close>

definition handleClose :: "StepTourProps \<Rightarrow> StepTourState \<Rightarrow> StepTourState" where
  "handleClose p s =
     s\<lparr> showIntro := False, showOutro := False, index := 0, introShownRef := False,
        trace := trace s @ fire PropsOnClose (onClose p) \<rparr>"

text \<open>Lines 138 to 151.\<close>

definition handleNext :: "StepTourProps \<Rightarrow> StepTourState \<Rightarrow> StepTourState" where
  "handleNext p s =
     (let s1 = s\<lparr> trace := trace s @ fire_step_onNext (current_val s) \<rparr>;
          hasNext = index s + 1 < int (length (stepsRef s1)) in
      if hasNext then s1\<lparr> index := index s1 + 1 \<rparr>
      else case outro p of
        Some out \<Rightarrow> s1\<lparr> trace := trace s1 @ fire OutroOnEnter (outro_onEnter out),
                        showOutro := True \<rparr>
      | None \<Rightarrow> handleClose p s1)"

text \<open>Lines 153 to 156.\<close>

definition handlePrev :: "StepTourProps \<Rightarrow> StepTourState \<Rightarrow> StepTourState" where
  "handlePrev p s = (if index s \<le> 0 then s else s\<lparr> index := max 0 (index s - 1) \<rparr>)"

text \<open>Lines 158 to 165.\<close>

definition handleOutroPrev :: "StepTourProps \<Rightarrow> StepTourState \<Rightarrow> StepTourState" where
  "handleOutroPrev p s =
     (if length (stepsRef s) = 0 then s\<lparr> showOutro := False \<rparr>
      else s\<lparr> showOutro := False, index := max 0 (index s - 1) \<rparr>)"

text \<open>Lines 167 to 175.\<close>

definition handleIntroNext :: "StepTourProps \<Rightarrow> StepTourState \<Rightarrow> StepTourState" where
  "handleIntroNext p s =
     (let s1 = s\<lparr> trace := trace s @ fire IntroOnNext (Option.bind (intro p) intro_onNext),
                   showIntro := False \<rparr> in
      if length (stepsRef s1) > 0
      then s1\<lparr> trace := trace s1 @ fire_step_onEnter (steps_at (stepsRef s1) 0) \<rparr>
      else handleClose p s1)"

text \<open>
  The inline handler of the outro's primary button (lines 237 to 240 and 256 to 259):
  \<^verbatim>\<open>outro.onNext?.(); handleClose()\<close>.
\<close>

definition handleOutroNext :: "StepTourProps \<Rightarrow> StepTourState \<Rightarrow> StepTourState" where
  "handleOutroNext p s =
     handleClose p (s\<lparr> trace := trace s @ fire OutroOnNext (Option.bind (outro p) outro_onNext) \<rparr>)"

datatype handler =
  HandleClose | HandleNext | HandlePrev | HandleOutroPrev | HandleIntroNext | HandleOutroNext

fun invoke :: "handler \<Rightarrow> StepTourProps \<Rightarrow> StepTourState \<Rightarrow> StepTourState" where
  "invoke HandleClose = handleClose"
| "invoke HandleNext = handleNext"
| "invoke HandlePrev = handlePrev"
| "invoke HandleOutroPrev = handleOutroPrev"
| "invoke HandleIntroNext = handleIntroNext"
| "invoke HandleOutroNext = handleOutroNext"

section \<open>What the component renders\<close>

text \<open>
  The properties \<open>StepTour\<close> passes to \<open>HighlightTour\<close> (lines 274 to 285), as far as
  behaviour goes: the handlers and the selector. The progress counter (line 285) is
  only displayed and is left out.
\<close>

record HighlightTourProps =
  h_open :: bool
  targetSelector :: string
  h_onNext :: "handler option"
  h_onPrev :: "handler option"
  h_onClose :: handler

text \<open>
  The return value of the render (lines 177, 190, 223, 271 and 273), with the handlers
  each branch wires to its buttons.
\<close>

datatype view =
    RenderNull
  | IntroModal
  | OutroModal "handler option"
  | Highlight HighlightTourProps

definition view :: "StepTourProps \<Rightarrow> StepTourState \<Rightarrow> view" where
  "view p s =
     (if \<not> open' p then RenderNull
      else if showIntro s \<and> intro p \<noteq> None then IntroModal
      else if showOutro s \<and> outro p \<noteq> None
        then OutroModal (if index s > 0 then Some HandleOutroPrev else None)
      else case current_val s of
        None \<Rightarrow> RenderNull
      | Some c \<Rightarrow> Highlight \<lparr> h_open = True, targetSelector = selector c,
          h_onNext = Some HandleNext,
          h_onPrev = (if index s > 0 then Some HandlePrev else None),
          h_onClose = HandleClose \<rparr>)"

text \<open>The handlers a view makes available to the user, by button or by key.\<close>

fun offered :: "view \<Rightarrow> handler set" where
  "offered RenderNull = {}"
| "offered IntroModal = {HandleClose, HandleIntroNext}"
| "offered (OutroModal prev) = {HandleClose, HandleOutroNext} \<union> set_option prev"
| "offered (Highlight h) =
     (if h_open h then {h_onClose h} \<union> set_option (h_onNext h) \<union> set_option (h_onPrev h) else {})"

text \<open>
  The phase of the specification, read off the view: \<open>Closed\<close> when nothing is
  rendered, \<open>Step i\<close> when the highlight of a step is rendered at index \<open>i\<close>.
\<close>

datatype TourPhase = Closed | Intro | Step int | Outro

definition phase :: "StepTourProps \<Rightarrow> StepTourState \<Rightarrow> TourPhase" where
  "phase p s =
     (case view p s of
        RenderNull \<Rightarrow> Closed
      | IntroModal \<Rightarrow> Intro
      | OutroModal prev \<Rightarrow> Outro
      | Highlight h \<Rightarrow> Step (index s))"

section \<open>Keyboard handling in \<open>HighlightTour.tsx\<close>\<close>

text \<open>
  What a key press leads to: whether \<^verbatim>\<open>preventDefault\<close> was called, and the handler
  that was called, if any.
\<close>

record key_outcome =
  defaultPrevented :: bool
  called :: "handler option"

definition ignored :: key_outcome where
  "ignored = \<lparr> defaultPrevented = False, called = None \<rparr>"

text \<open>Lines 132 to 147.\<close>

definition handleKey :: "HighlightTourProps \<Rightarrow> string \<Rightarrow> key_outcome" where
  "handleKey h key =
     (if key = ''Escape'' then \<lparr> defaultPrevented = True, called = Some (h_onClose h) \<rparr>
      else if key = ''ArrowRight'' \<and> h_onNext h \<noteq> None
        then \<lparr> defaultPrevented = True, called = h_onNext h \<rparr>
      else if key = ''ArrowLeft'' \<and> h_onPrev h \<noteq> None
        then \<lparr> defaultPrevented = True, called = h_onPrev h \<rparr>
      else ignored)"

text \<open>
  Lines 130 to 150: the listener is on the window only while \<open>HighlightTour\<close> is
  mounted with \<^verbatim>\<open>open\<close> true.
\<close>

definition highlight_keydown :: "HighlightTourProps \<Rightarrow> string \<Rightarrow> key_outcome" where
  "highlight_keydown h key = (if h_open h then handleKey h key else ignored)"

text \<open>
  A key press while \<open>StepTour\<close> is mounted. Only the branch that renders
  \<open>HighlightTour\<close> has a key listener; the intro and outro modals (lines 190 to 269)
  register none.
\<close>

definition keydown :: "StepTourProps \<Rightarrow> StepTourState \<Rightarrow> string \<Rightarrow> key_outcome" where
  "keydown p s key =
     (case view p s of
        Highlight h \<Rightarrow> highlight_keydown h key
      | RenderNull \<Rightarrow> ignored
      | IntroModal \<Rightarrow> ignored
      | OutroModal prev \<Rightarrow> ignored)"

section \<open>Idle states and reachable states\<close>

text \<open>
  A state is settled for the properties \<open>p\<close> when the last render was made with \<open>p\<close>
  and with the state cells as they are: the steps ref and all recorded dependency arrays
  are current, so that rendering again changes nothing.
\<close>

definition settled :: "StepTourProps \<Rightarrow> StepTourState \<Rightarrow> bool" where
  "settled p s \<longleftrightarrow>
     stepsRef s = steps p
     \<and> current_deps s = Some (open' p, showIntro s, index s)
     \<and> deps_reset s = Some (open' p, index s, length (steps p))
     \<and> deps_latch s = Some (open' p, map_option intro_ident (intro p))
     \<and> deps_enter s = Some (index s, open' p, showIntro s)"

text \<open>The tour is at \<open>Step i\<close>: it is idle and shows the \<open>i\<close>-th step of the list.\<close>

definition at_step :: "StepTourProps \<Rightarrow> StepTourState \<Rightarrow> nat \<Rightarrow> bool" where
  "at_step p s i \<longleftrightarrow>
     settled p s \<and> open' p \<and> \<not> showIntro s \<and> \<not> showOutro s
     \<and> index s = int i \<and> i < length (steps p) \<and> current_val s = Some (steps p ! i)"

text \<open>
  The states a mounted component can be in: it is mounted, its parent renders it with
  new properties, or the user triggers a handler that the current view offers.
\<close>

inductive reach :: "StepTourProps \<Rightarrow> StepTourState \<Rightarrow> bool" where
  reach_mount: "reach p (commit p (mount p))"
| reach_rerender: "reach p s \<Longrightarrow> reach p' (commit p' s)"
| reach_invoke: "reach p s \<Longrightarrow> h \<in> offered (view p s) \<Longrightarrow> reach p (commit p (invoke h p s))"

text \<open>
  Whether running handler \<open>h\<close> called the \<^verbatim>\<open>onClose\<close> property of the tour.
\<close>

fun is_PropsOnClose :: "event \<Rightarrow> bool" where
  "is_PropsOnClose (PropsOnClose c) = True"
| "is_PropsOnClose e = False"

definition closes :: "handler \<Rightarrow> StepTourProps \<Rightarrow> StepTourState \<Rightarrow> bool" where
  "closes h p s = list_ex is_PropsOnClose (drop (length (trace s)) (trace (invoke h p s)))"

text \<open>
  The same with a parent that uses the component as the README shows: it always passes
  \<^verbatim>\<open>onClose\<close>, and when \<^verbatim>\<open>onClose\<close> is called it sets \<^verbatim>\<open>open\<close> to false, so that the
  render after the handler is made with \<^verbatim>\<open>open\<close> false.
\<close>

inductive reach_closing :: "StepTourProps \<Rightarrow> StepTourState \<Rightarrow> bool" where
  closing_mount: "onClose p \<noteq> None \<Longrightarrow> reach_closing p (commit p (mount p))"
| closing_rerender: "reach_closing p s \<Longrightarrow> onClose p' \<noteq> None \<Longrightarrow> reach_closing p' (commit p' s)"
| closing_invoke: "reach_closing p s \<Longrightarrow> h \<in> offered (view p s) \<Longrightarrow> \<not> closes h p s
     \<Longrightarrow> reach_closing p (commit p (invoke h p s))"
| closing_close: "reach_closing p s \<Longrightarrow> h \<in> offered (view p s) \<Longrightarrow> closes h p s
     \<Longrightarrow> onClose p' \<noteq> None \<Longrightarrow> \<not> open' p' \<Longrightarrow> reach_closing p' (commit p' (invoke h p s))"

text \<open>
  What holds of every state a well-behaved parent can reach: \<^verbatim>\<open>current\<close> is undefined
  whenever it was computed while the intro was shown; the outro is shown only with the
  latch set and never together with the intro; and while the tour is open the latch is
  set.
\<close>

definition memo_ok :: "StepTourState \<Rightarrow> bool" where
  "memo_ok s \<longleftrightarrow>
     current_val s = None \<or> map_option (fst \<circ> snd) (current_deps s) \<noteq> Some True"

definition flags_ok :: "StepTourState \<Rightarrow> bool" where
  "flags_ok s \<longleftrightarrow>
     (\<not> showOutro s \<or> introShownRef s) \<and> \<not> (showIntro s \<and> showOutro s) \<and> memo_ok s"

definition tour_inv :: "StepTourProps \<Rightarrow> StepTourState \<Rightarrow> bool" where
  "tour_inv p s \<longleftrightarrow>
     settled p s \<and> onClose p \<noteq> None \<and> (\<not> open' p \<or> introShownRef s) \<and> flags_ok s"

section \<open>Placement of the tooltip in \<open>HighlightTour.tsx\<close>\<close>

text \<open>
  Lines 166 and 167. JavaScript numbers are modelled as real numbers; \<^verbatim>\<open>Math.min\<close> and
  \<^verbatim>\<open>Math.max\<close> are \<open>min\<close> and \<open>max\<close>.
\<close>

definition tooltipLeft :: "real \<Rightarrow> real \<Rightarrow> real" where
  "tooltipLeft rect_left viewportWidth = min (max rect_left 16) (max 16 (viewportWidth - 320))"

definition tooltipTop :: "real \<Rightarrow> real \<Rightarrow> real" where
  "tooltipTop rect_bottom viewportHeight = min (rect_bottom + 12) (viewportHeight - 160)"

text \<open>The clamp of the specification: \<open>x\<close> limited to the interval from \<open>lo\<close> to \<open>hi\<close>.\<close>

definition spec_clamp :: "real \<Rightarrow> real \<Rightarrow> real \<Rightarrow> real" where
  "spec_clamp x lo hi = (if x < lo then lo else if hi < x then hi else x)"

section \<open>Scenarios\<close>

text \<open>
  Concrete tours for the statements below that are about one run: three steps with an
  outro, the same with an intro, the same with the second step replaced by a new object
  while it is shown, a tour that is opened together with its first steps, and a parent
  that neither passes \<^verbatim>\<open>onClose\<close> nor keeps the intro object stable.
\<close>

definition stepA :: TourStep where
  "stepA = \<lparr> step_id = ''a'', selector = ''#a'', step_onEnter = Some 1, step_onNext = Some 2 \<rparr>"

definition stepB :: TourStep where
  "stepB = \<lparr> step_id = ''b'', selector = ''#b'', step_onEnter = Some 3, step_onNext = Some 4 \<rparr>"

definition stepC :: TourStep where
  "stepC = \<lparr> step_id = ''c'', selector = ''#c'', step_onEnter = Some 5, step_onNext = Some 6 \<rparr>"

definition introI :: TourIntro where
  "introI = \<lparr> intro_ident = 0, intro_onNext = Some 10, intro_onEnter = Some 11, intro_onClose = Some 12 \<rparr>"

definition outroO :: TourOutro where
  "outroO = \<lparr> outro_onNext = Some 20, outro_onEnter = Some 21, outro_onClose = Some 22 \<rparr>"

definition tour3 :: StepTourProps where
  "tour3 = \<lparr> open' = True, steps = [stepA, stepB, stepC], onClose = Some 30,
     intro = None, outro = Some outroO \<rparr>"

definition tour3_intro :: StepTourProps where
  "tour3_intro = tour3\<lparr> intro := Some introI \<rparr>"

definition at0 :: StepTourState where "at0 = commit tour3 (mount tour3)"
definition at1 :: StepTourState where "at1 = commit tour3 (handleNext tour3 at0)"
definition at2 :: StepTourState where "at2 = commit tour3 (handleNext tour3 at1)"
definition at_outro :: StepTourState where "at_outro = commit tour3 (handleNext tour3 at2)"
definition at_intro :: StepTourState where "at_intro = commit tour3_intro (mount tour3_intro)"

definition stepB2 :: TourStep where
  "stepB2 = \<lparr> step_id = ''b'', selector = ''#b'', step_onEnter = Some 7, step_onNext = Some 8 \<rparr>"

definition tour3_replaced :: StepTourProps where
  "tour3_replaced = tour3\<lparr> steps := [stepA, stepB2, stepC] \<rparr>"

definition at1_replaced :: StepTourState where
  "at1_replaced = commit tour3_replaced at1"

definition full0 :: StepTourState where
  "full0 = commit tour3_intro (invoke HandleIntroNext tour3_intro at_intro)"

definition full1 :: StepTourState where
  "full1 = commit tour3_intro (invoke HandleNext tour3_intro full0)"

definition full2 :: StepTourState where
  "full2 = commit tour3_intro (invoke HandleNext tour3_intro full1)"

definition full_outro :: StepTourState where
  "full_outro = commit tour3_intro (invoke HandleNext tour3_intro full2)"

definition closed_empty :: StepTourProps where
  "closed_empty = \<lparr> open' = False, steps = [], onClose = Some 30, intro = None, outro = None \<rparr>"

definition opened_one :: StepTourProps where
  "opened_one = \<lparr> open' = True, steps = [stepA], onClose = Some 30, intro = None, outro = None \<rparr>"

definition only0 :: StepTourState where "only0 = commit opened_one (mount opened_one)"

definition loose :: StepTourProps where
  "loose = \<lparr> open' = True, steps = [stepA], onClose = None, intro = Some introI,
     outro = Some outroO \<rparr>"

definition loose' :: StepTourProps where
  "loose' = loose\<lparr> intro := Some (introI\<lparr> intro_ident := 1 \<rparr>) \<rparr>"

definition loose0 :: StepTourState where "loose0 = commit loose (mount loose)"
definition loose1 :: StepTourState where "loose1 = commit loose (invoke HandleClose loose loose0)"
definition loose2 :: StepTourState where "loose2 = commit loose (invoke HandleNext loose loose1)"
definition loose3 :: StepTourState where "loose3 = commit loose' loose2"

section \<open>Properties of rendering\<close>

text \<open>
  What one render and its effects do to each field of the state.
\<close>

lemma render_memo_fields [simp]:
  "index (render_memo p s) = index s"
  "showIntro (render_memo p s) = showIntro s"
  "showOutro (render_memo p s) = showOutro s"
  "introShownRef (render_memo p s) = introShownRef s"
  "stepsRef (render_memo p s) = stepsRef s"
  "deps_reset (render_memo p s) = deps_reset s"
  "deps_latch (render_memo p s) = deps_latch s"
  "deps_enter (render_memo p s) = deps_enter s"
  "trace (render_memo p s) = trace s"
  "current_deps (render_memo p s) = Some (open' p, showIntro s, index s)"
  by (simp_all add: render_memo_def Let_def)

lemma render_memo_current:
  "current_val (render_memo p s) =
     (if current_deps s = Some (open' p, showIntro s, index s) then current_val s
      else if open' p \<and> \<not> showIntro s then steps_at (stepsRef s) (index s) else None)"
  by (simp add: render_memo_def Let_def)

lemma effect_stepsRef_fields [simp]:
  "index (effect_stepsRef p s) = index s"
  "showIntro (effect_stepsRef p s) = showIntro s"
  "showOutro (effect_stepsRef p s) = showOutro s"
  "introShownRef (effect_stepsRef p s) = introShownRef s"
  "stepsRef (effect_stepsRef p s) = steps p"
  "deps_reset (effect_stepsRef p s) = deps_reset s"
  "deps_latch (effect_stepsRef p s) = deps_latch s"
  "deps_enter (effect_stepsRef p s) = deps_enter s"
  "trace (effect_stepsRef p s) = trace s"
  "current_deps (effect_stepsRef p s) = current_deps s"
  "current_val (effect_stepsRef p s) = current_val s"
  by (simp_all add: effect_stepsRef_def)

lemma effect_reset_fields [simp]:
  "showIntro (effect_reset p r s) = showIntro s"
  "showOutro (effect_reset p r s) = showOutro s"
  "introShownRef (effect_reset p r s) = introShownRef s"
  "stepsRef (effect_reset p r s) = stepsRef s"
  "deps_reset (effect_reset p r s) = Some (open' p, index r, length (steps p))"
  "deps_latch (effect_reset p r s) = deps_latch s"
  "deps_enter (effect_reset p r s) = deps_enter s"
  "trace (effect_reset p r s) = trace s"
  "current_deps (effect_reset p r s) = current_deps s"
  "current_val (effect_reset p r s) = current_val s"
  by (simp_all add: effect_reset_def Let_def)

lemma effect_reset_index:
  "index (effect_reset p r s) =
     (if deps_reset s \<noteq> Some (open' p, index r, length (steps p)) \<and> open' p
         \<and> int (length (stepsRef s)) \<le> index r then 0 else index s)"
  by (simp add: effect_reset_def Let_def)

lemma effect_latch_fields [simp]:
  "stepsRef (effect_latch p r s) = stepsRef s"
  "deps_reset (effect_latch p r s) = deps_reset s"
  "deps_latch (effect_latch p r s) = Some (open' p, map_option intro_ident (intro p))"
  "deps_enter (effect_latch p r s) = deps_enter s"
  "current_deps (effect_latch p r s) = current_deps s"
  "current_val (effect_latch p r s) = current_val s"
  by (simp_all add: effect_latch_def Let_def split: option.splits)

lemma effect_latch_skip:
  "deps_latch s = Some (open' p, map_option intro_ident (intro p)) \<Longrightarrow> effect_latch p r s = s"
  by (simp add: effect_latch_def)

lemma effect_enter_fields [simp]:
  "index (effect_enter p r s) = index s"
  "showIntro (effect_enter p r s) = showIntro s"
  "showOutro (effect_enter p r s) = showOutro s"
  "introShownRef (effect_enter p r s) = introShownRef s"
  "stepsRef (effect_enter p r s) = stepsRef s"
  "deps_reset (effect_enter p r s) = deps_reset s"
  "deps_latch (effect_enter p r s) = deps_latch s"
  "deps_enter (effect_enter p r s) = Some (index r, open' p, showIntro r)"
  "current_deps (effect_enter p r s) = current_deps s"
  "current_val (effect_enter p r s) = current_val s"
  by (simp_all add: effect_enter_def Let_def)

lemma pass_deps [simp]:
  "deps_latch (pass p s) = Some (open' p, map_option intro_ident (intro p))"
  "deps_reset (pass p s) = Some (open' p, index s, length (steps p))"
  "deps_enter (pass p s) = Some (index s, open' p, showIntro s)"
  "current_deps (pass p s) = Some (open' p, showIntro s, index s)"
  "stepsRef (pass p s) = steps p"
  by (simp_all add: pass_def Let_def)

lemma pass_cells_latched:
  assumes "deps_latch s = Some (open' p, map_option intro_ident (intro p))"
  shows "showIntro (pass p s) = showIntro s"
    and "showOutro (pass p s) = showOutro s"
    and "index (pass p s) =
          (if deps_reset s \<noteq> Some (open' p, index s, length (steps p)) \<and> open' p
              \<and> int (length (steps p)) \<le> index s then 0 else index s)"
  using assms by (auto simp add: pass_def Let_def effect_latch_skip effect_reset_index)

termination commit
proof (relation "measure rerender_measure")
  show "wf (measure rerender_measure)" by simp
next
  fix p s s1
  assume s1: "s1 = pass p s" and ch: "cells s1 \<noteq> cells s"
  show "((p, s1), (p, s)) \<in> measure rerender_measure"
  proof (cases "deps_latch s = Some (open' p, map_option intro_ident (intro p))")
    case False
    then show ?thesis by (simp add: rerender_measure_def s1)
  next
    case True
    from ch have "index s1 \<noteq> index s"
      using pass_cells_latched(1,2)[OF True] by (simp add: cells_def s1)
    then have "index s1 = 0 \<and> rerender_measure (p, s) = 1"
      using pass_cells_latched(3)[OF True] True
      by (auto simp: s1 rerender_measure_def split: if_splits)
    then show ?thesis by (simp add: rerender_measure_def s1)
  qed
qed

declare commit.simps [simp del]

text \<open>
  The renders that follow one change: one when the effects leave the state cells alone,
  two when they change them once. Every commit ends in a settled state.
\<close>

lemma effect_latch_cells:
  "introShownRef (effect_latch p r s) =
     (if deps_latch s = Some (open' p, map_option intro_ident (intro p)) then introShownRef s
      else open' p)"
  "showIntro (effect_latch p r s) =
     (if deps_latch s = Some (open' p, map_option intro_ident (intro p)) then showIntro s
      else if \<not> open' p then False
      else if introShownRef s then showIntro s
      else (intro p \<noteq> None \<or> showIntro s))"
  "showOutro (effect_latch p r s) =
     (if deps_latch s = Some (open' p, map_option intro_ident (intro p)) \<or> open' p
      then showOutro s else False)"
  "index (effect_latch p r s) =
     (if deps_latch s = Some (open' p, map_option intro_ident (intro p)) \<or> open' p
      then index s else 0)"
  by (auto simp: effect_latch_def Let_def split: option.splits)

lemma effect_enter_trace:
  "trace (effect_enter p r s) =
     trace s @ (if deps_enter s \<noteq> Some (index r, open' p, showIntro r) \<and> open' p \<and> \<not> showIntro r
                then fire_step_onEnter (steps_at (stepsRef s) (index r)) else [])"
  by (auto simp add: effect_enter_def Let_def)

lemma pass_current_val:
  "current_val (pass p s) = current_val (render_memo p s)"
  by (simp add: pass_def Let_def)

lemma pass_latched:
  assumes "deps_latch s = Some (open' p, map_option intro_ident (intro p))"
  shows "introShownRef (pass p s) = introShownRef s"
    and "trace (pass p s) =
          trace s @ (if deps_enter s \<noteq> Some (index s, open' p, showIntro s) \<and> open' p \<and> \<not> showIntro s
                     then fire_step_onEnter (steps_at (steps p) (index s)) else [])"
  using assms by (auto simp add: pass_def Let_def effect_latch_skip effect_enter_trace)

lemma commit_one: "cells (pass p s) = cells s \<Longrightarrow> commit p s = pass p s"
  by (subst commit.simps) (simp add: Let_def)

lemma commit_two:
  "cells (pass p s) \<noteq> cells s \<Longrightarrow> cells (pass p (pass p s)) = cells (pass p s)
   \<Longrightarrow> commit p s = pass p (pass p s)"
  by (subst commit.simps) (simp add: Let_def commit_one)

lemma pass_settled: "cells (pass p s) = cells s \<Longrightarrow> settled p (pass p s)"
  by (simp add: settled_def cells_def)

lemma commit_settled: "settled p (commit p s)"
proof (induction p s rule: commit.induct)
  case (1 p s)
  show ?case
  proof (cases "cells (pass p s) = cells s")
    case True
    then show ?thesis by (simp add: commit_one pass_settled)
  next
    case False
    then have "commit p s = commit p (pass p s)"
      by (subst commit.simps) (simp add: Let_def)
    with 1 [OF refl False] show ?thesis by simp
  qed
qed

lemma at_step_phase: "at_step p s i \<Longrightarrow> phase p s = Step (int i)"
  by (simp add: at_step_def phase_def view_def)

lemma steps_at_nat: "i < length xs \<Longrightarrow> steps_at xs (int i) = Some (xs ! i)"
  by (simp add: steps_at_def)

lemma handleNext_at_step:
  assumes "at_step p s i"
  shows "handleNext p s =
     (let s1 = s\<lparr> trace := trace s @ fire StepOnNext (step_onNext (steps p ! i)) \<rparr> in
      if i + 1 < length (steps p) then s1\<lparr> index := int i + 1 \<rparr>
      else case outro p of
        Some out \<Rightarrow> s1\<lparr> trace := trace s1 @ fire OutroOnEnter (outro_onEnter out),
                        showOutro := True \<rparr>
      | None \<Rightarrow> handleClose p s1)"
  using assms
  by (auto simp: at_step_def settled_def handleNext_def fire_step_onNext_def Let_def
      split: option.splits)

text \<open>Moving the index inside the list: one render, which enters the new step.\<close>

lemma commit_moved_index:
  assumes a: "at_step p s i" and j: "j < length (steps p)" and ij: "j \<noteq> i"
    and s1: "s1 = s\<lparr> trace := t, index := int j \<rparr>"
  shows "at_step p (commit p s1) j"
    and "trace (commit p s1) = t @ fire StepOnEnter (step_onEnter (steps p ! j))"
proof -
  from a have latched: "deps_latch s1 = Some (open' p, map_option intro_ident (intro p))"
    by (simp add: at_step_def settled_def s1)
  have idx: "index (pass p s1) = int j"
    using pass_cells_latched(3) [OF latched] j by (simp add: s1)
  have cells_eq: "cells (pass p s1) = cells s1"
    using pass_cells_latched(1,2) [OF latched] idx by (simp add: cells_def s1)
  then have c: "commit p s1 = pass p s1"
    by (rule commit_one)
  have cur: "current_val (pass p s1) = Some (steps p ! j)"
    using a j ij
    by (simp add: pass_current_val render_memo_current at_step_def settled_def s1 steps_at_nat)
  have flags: "\<not> showIntro (pass p s1)" "\<not> showOutro (pass p s1)"
    using pass_cells_latched(1,2) [OF latched] a by (simp_all add: at_step_def s1)
  show "at_step p (commit p s1) j"
    unfolding c using a j idx cur flags pass_settled [OF cells_eq]
    by (simp add: at_step_def)
  show "trace (commit p s1) = t @ fire StepOnEnter (step_onEnter (steps p ! j))"
    unfolding c using a j ij pass_latched(2) [OF latched]
    by (simp add: at_step_def settled_def s1 steps_at_nat fire_step_onEnter_def)
qed

text \<open>A change that leaves every dependency array as it is: one render, no effect.\<close>

lemma pass_idle:
  assumes "settled p s"
  shows "pass p s = s"
proof -
  from assms have "render_memo p s = s"
    by (simp add: settled_def render_memo_def)
  moreover from assms have "effect_stepsRef p s = s"
    by (simp add: settled_def effect_stepsRef_def)
  moreover from assms have "effect_reset p s s = s"
    by (simp add: settled_def effect_reset_def)
  moreover from assms have "effect_latch p s s = s"
    by (simp add: settled_def effect_latch_def)
  moreover from assms have "effect_enter p s s = s"
    by (simp add: settled_def effect_enter_def)
  ultimately show ?thesis
    by (simp add: pass_def)
qed

lemma commit_idle: "settled p s \<Longrightarrow> commit p s = s"
  by (simp add: commit_one pass_idle)

lemma settled_outro_update:
  "settled p s \<Longrightarrow> settled p (s\<lparr> trace := t, showOutro := b \<rparr>)"
  by (simp add: settled_def)

text \<open>
  The invariant of the states reachable with a parent that closes the tour when asked.
\<close>

lemma pass_flags:
  "introShownRef (pass p s) =
     (if deps_latch s = Some (open' p, map_option intro_ident (intro p)) then introShownRef s
      else open' p)"
  "showIntro (pass p s) =
     (if deps_latch s = Some (open' p, map_option intro_ident (intro p)) then showIntro s
      else if \<not> open' p then False
      else if introShownRef s then showIntro s
      else (intro p \<noteq> None \<or> showIntro s))"
  "showOutro (pass p s) =
     (if deps_latch s = Some (open' p, map_option intro_ident (intro p)) \<or> open' p
      then showOutro s else False)"
  by (simp_all add: pass_def Let_def effect_latch_cells)

lemma pass_index:
  "index (pass p s) =
     (if deps_latch s = Some (open' p, map_option intro_ident (intro p)) \<or> open' p
      then (if deps_reset s \<noteq> Some (open' p, index s, length (steps p)) \<and> open' p
               \<and> int (length (steps p)) \<le> index s then 0 else index s)
      else 0)"
  by (auto simp add: pass_def Let_def effect_latch_cells effect_reset_index)

lemma pass_memo_ok: "memo_ok s \<Longrightarrow> memo_ok (pass p s)"
  by (auto simp: memo_ok_def pass_current_val render_memo_current)

lemma pass_flags_ok: "flags_ok s \<Longrightarrow> flags_ok (pass p s)"
  by (auto simp: flags_ok_def pass_flags pass_memo_ok)

lemma commit_unfold:
  "commit p s = (if cells (pass p s) = cells s then pass p s else commit p (pass p s))"
  by (subst commit.simps) (simp add: Let_def)

lemma commit_flags_ok: "flags_ok s \<Longrightarrow> flags_ok (commit p s)"
proof (induction p s rule: commit.induct)
  case (1 p s)
  show ?case
  proof (cases "cells (pass p s) = cells s")
    case True
    with 1 show ?thesis by (simp add: commit_one pass_flags_ok)
  next
    case False
    from 1(1) [OF refl False] 1(2) have "flags_ok (commit p (pass p s))"
      by (simp add: pass_flags_ok)
    with False show ?thesis by (subst commit_unfold) simp
  qed
qed

lemma commit_latched:
  assumes "open' p"
    and "deps_latch s \<noteq> Some (open' p, map_option intro_ident (intro p)) \<or> introShownRef s"
  shows "introShownRef (commit p s)"
  using assms
proof (induction p s rule: commit.induct)
  case (1 p s)
  from 1(2,3) have l: "introShownRef (pass p s)"
    by (auto simp: pass_flags)
  show ?case
  proof (cases "cells (pass p s) = cells s")
    case True
    with l show ?thesis by (simp add: commit_one)
  next
    case False
    from 1(1) [OF refl False 1(2)] l have "introShownRef (commit p (pass p s))"
      by simp
    with False show ?thesis by (subst commit_unfold) simp
  qed
qed

lemma commit_closed_flags_ok:
  assumes "\<not> open' p" and "deps_latch s \<noteq> Some (open' p, map_option intro_ident (intro p))"
    and "memo_ok s"
  shows "flags_ok (commit p s)"
proof -
  from assms have "flags_ok (pass p s)"
    by (simp add: flags_ok_def pass_flags pass_memo_ok)
  then show ?thesis
    by (subst commit_unfold) (simp add: commit_flags_ok)
qed

lemma mount_flags_ok: "flags_ok (mount p)"
  by (simp add: flags_ok_def memo_ok_def mount_def)

text \<open>What the handlers keep.\<close>

lemma handleClose_closes:
  "onClose p \<noteq> None \<Longrightarrow> trace s = t @ xs
   \<Longrightarrow> list_ex is_PropsOnClose (drop (length t) (trace (handleClose p s)))"
  by (auto simp: handleClose_def)

lemma invoke_keeps:
  "deps_latch (invoke h p s) = deps_latch s"
  "current_deps (invoke h p s) = current_deps s"
  "current_val (invoke h p s) = current_val s"
  by (cases h; simp add: handleClose_def handleNext_def handlePrev_def handleOutroPrev_def
      handleIntroNext_def handleOutroNext_def Let_def split: option.splits)+

lemma invoke_memo_ok: "memo_ok (invoke h p s) = memo_ok s"
  by (simp add: memo_ok_def invoke_keeps)

lemma highlight_not_intro:
  assumes "settled p s" "memo_ok s" "view p s = Highlight hp"
  shows "\<not> showIntro s" "open' p"
  using assms
  by (auto simp: settled_def memo_ok_def view_def split: if_splits option.splits)

lemma invoke_open_flags_ok:
  assumes inv: "tour_inv p s" and off: "h \<in> offered (view p s)" and nc: "\<not> closes h p s"
  shows "flags_ok (invoke h p s) \<and> introShownRef (invoke h p s)"
proof -
  from inv have st: "settled p s" and oc: "onClose p \<noteq> None" and fl: "flags_ok s"
    and la: "\<not> open' p \<or> introShownRef s"
    by (simp_all add: tour_inv_def)
  from off have op: "open' p"
    by (auto simp: view_def split: if_splits)
  with la have latch: "introShownRef s" by simp
  from fl have mo: "memo_ok s" by (simp add: flags_ok_def)
  then have mo': "memo_ok (invoke h p s)" by (simp add: invoke_memo_ok)
  show ?thesis
  proof (cases h)
    case HandleClose
    from handleClose_closes [OF oc, of s "trace s" "[]"] nc show ?thesis
      by (simp add: HandleClose closes_def)
  next
    case HandleOutroNext
    from handleClose_closes [OF oc, of _ "trace s"] nc show ?thesis
      by (simp add: HandleOutroNext closes_def handleOutroNext_def)
  next
    case HandlePrev
    with fl latch mo' show ?thesis
      by (simp add: handlePrev_def flags_ok_def)
  next
    case HandleOutroPrev
    with fl latch mo' show ?thesis
      by (simp add: handleOutroPrev_def flags_ok_def)
  next
    case HandleIntroNext
    show ?thesis
    proof (cases "length (stepsRef s) > 0")
      case True
      with fl latch mo' show ?thesis
        by (auto simp add: HandleIntroNext handleIntroNext_def flags_ok_def Let_def)
    next
      case False
      from handleClose_closes [OF oc, of _ "trace s"] nc False show ?thesis
        by (simp add: HandleIntroNext closes_def handleIntroNext_def Let_def)
    qed
  next
    case HandleNext
    with off obtain hp where v: "view p s = Highlight hp"
      by (auto simp: view_def split: if_splits option.splits)
    from highlight_not_intro [OF st mo v] have ni: "\<not> showIntro s" by simp
    show ?thesis
    proof (cases "index s + 1 < int (length (stepsRef s))")
      case True
      with fl latch mo' show ?thesis
        by (simp add: HandleNext handleNext_def flags_ok_def Let_def)
    next
      case False
      show ?thesis
      proof (cases "outro p")
        case None
        from handleClose_closes [OF oc, of _ "trace s"] nc False None show ?thesis
          by (simp add: HandleNext closes_def handleNext_def Let_def)
      next
        case (Some out)
        with False fl latch mo' ni show ?thesis
          by (simp add: HandleNext handleNext_def flags_ok_def Let_def)
      qed
    qed
  qed
qed

lemma reach_closing_inv: "reach_closing p s \<Longrightarrow> tour_inv p s"
proof (induction rule: reach_closing.induct)
  case (closing_mount p)
  have "\<not> open' p \<or> introShownRef (commit p (mount p))"
    using commit_latched [of p "mount p"] by (auto simp: mount_def)
  with closing_mount show ?case
    by (simp add: tour_inv_def commit_settled commit_flags_ok mount_flags_ok)
next
  case (closing_rerender p s p')
  then have inv: "tour_inv p s" by simp
  have "\<not> open' p' \<or> introShownRef (commit p' s)"
  proof (cases "open' p'")
    case True
    from inv have "deps_latch s \<noteq> Some (open' p', map_option intro_ident (intro p'))
        \<or> introShownRef s"
      using True by (auto simp: tour_inv_def settled_def)
    from commit_latched [OF True this] show ?thesis by simp
  qed simp
  with inv closing_rerender(2) show ?case
    by (simp add: tour_inv_def commit_settled commit_flags_ok)
next
  case (closing_invoke p s h)
  then have inv: "tour_inv p s" by simp
  from invoke_open_flags_ok [OF inv closing_invoke(2,3)]
  have fl: "flags_ok (invoke h p s)" and la: "introShownRef (invoke h p s)" by simp_all
  have "\<not> open' p \<or> introShownRef (commit p (invoke h p s))"
  proof (cases "open' p")
    case True
    from commit_latched [OF True] la show ?thesis by simp
  qed simp
  with inv fl show ?case
    by (simp add: tour_inv_def commit_settled commit_flags_ok)
next
  case (closing_close p s h p')
  then have inv: "tour_inv p s" by simp
  from closing_close(2) have op: "open' p"
    by (auto simp: view_def split: if_splits)
  from inv op closing_close(5)
  have d: "deps_latch (invoke h p s) \<noteq> Some (open' p', map_option intro_ident (intro p'))"
    by (auto simp: tour_inv_def settled_def invoke_keeps)
  from inv have "memo_ok (invoke h p s)"
    by (simp add: invoke_memo_ok tour_inv_def flags_ok_def)
  from commit_closed_flags_ok [OF closing_close(5) d this] closing_close(4,5) show ?case
    by (simp add: tour_inv_def commit_settled)
qed

lemma at_outro_reach_closing: "reach_closing tour3 at_outro"
proof -
  have "onClose tour3 \<noteq> None" by code_simp
  then have r0: "reach_closing tour3 at0"
    unfolding at0_def by (rule closing_mount)
  have "HandleNext \<in> offered (view tour3 at0)" "\<not> closes HandleNext tour3 at0"
    by code_simp+
  from closing_invoke [OF r0 this] have r1: "reach_closing tour3 at1"
    by (simp add: at1_def)
  have "HandleNext \<in> offered (view tour3 at1)" "\<not> closes HandleNext tour3 at1"
    by code_simp+
  from closing_invoke [OF r1 this] have r2: "reach_closing tour3 at2"
    by (simp add: at2_def)
  have "HandleNext \<in> offered (view tour3 at2)" "\<not> closes HandleNext tour3 at2"
    by code_simp+
  from closing_invoke [OF r2 this] show ?thesis
    by (simp add: at_outro_def)
qed

lemma full_reach_closing:
  "reach_closing tour3_intro at_intro" "reach_closing tour3_intro full_outro"
proof -
  have "onClose tour3_intro \<noteq> None" by code_simp
  then show r: "reach_closing tour3_intro at_intro"
    unfolding at_intro_def by (rule closing_mount)
  have "HandleIntroNext \<in> offered (view tour3_intro at_intro)"
    "\<not> closes HandleIntroNext tour3_intro at_intro"
    by code_simp+
  from closing_invoke [OF r this] have r0: "reach_closing tour3_intro full0"
    by (simp add: full0_def)
  have "HandleNext \<in> offered (view tour3_intro full0)" "\<not> closes HandleNext tour3_intro full0"
    by code_simp+
  from closing_invoke [OF r0 this] have r1: "reach_closing tour3_intro full1"
    by (simp add: full1_def)
  have "HandleNext \<in> offered (view tour3_intro full1)" "\<not> closes HandleNext tour3_intro full1"
    by code_simp+
  from closing_invoke [OF r1 this] have r2: "reach_closing tour3_intro full2"
    by (simp add: full2_def)
  have "HandleNext \<in> offered (view tour3_intro full2)" "\<not> closes HandleNext tour3_intro full2"
    by code_simp+
  from closing_invoke [OF r2 this] show "reach_closing tour3_intro full_outro"
    by (simp add: full_outro_def)
qed

lemma loose_reach: "reach loose' loose3"
proof -
  have r0: "reach loose loose0"
    unfolding loose0_def by (rule reach_mount)
  have "HandleClose \<in> offered (view loose loose0)" by code_simp
  from reach_invoke [OF r0 this] have r1: "reach loose loose1"
    unfolding loose1_def .
  have "HandleNext \<in> offered (view loose loose1)" by code_simp
  from reach_invoke [OF r1 this] have r2: "reach loose loose2"
    unfolding loose2_def .
  from reach_rerender [OF r2] show ?thesis
    unfolding loose3_def .
qed

section \<open>Claims\<close>

subsection \<open>C1: the first \<open>onEnter\<close> fires once per lifecycle\<close>

text \<open>
  C1 says that the initial \<open>onEnter\<close> (the intro's, or that of \<open>Step 0\<close> when there is
  no intro) is invoked exactly once for every lifecycle. The latch of lines 98 to 100
  guards one invocation, but the effect of lines 110 to 113 runs in the same commit:
  a tour of three steps without an intro, mounted open, shows \<open>Step 0\<close> and has
  invoked the \<open>onEnter\<close> of its first step twice.
\<close>

theorem first_onEnter_fires_twice:
  "intro tour3 = None \<and> steps_at (steps tour3) 0 = Some stepA
   \<and> phase tour3 (commit tour3 (mount tour3)) = Step 0
   \<and> trace (commit tour3 (mount tour3)) = [StepOnEnter 1, StepOnEnter 1]"
  by code_simp

subsection \<open>C2: advancing from a step\<close>

text \<open>
  C2 says that \<open>advance()\<close> at \<open>Step i\<close> first invokes the \<open>onNext\<close> of the current
  step. \<open>handleNext\<close> invokes the \<open>onNext\<close> of \<^verbatim>\<open>current\<close>, which is memoised on
  \<^verbatim>\<open>[open, showIntro, index]\<close> and is not recomputed when the parent passes a new list
  of steps. At \<open>Step 1\<close> of three steps, after the parent has replaced the second step
  by a new object with callbacks of its own, the tour is still at \<open>Step 1\<close>, and
  advancing invokes the \<open>onNext\<close> of the replaced step, not that of the step now at
  index 1.
\<close>

theorem advance_fires_replaced_onNext:
  "phase tour3 at1 = Step 1
   \<and> phase tour3_replaced at1_replaced = Step 1
   \<and> trace at1_replaced = trace at1
   \<and> steps_at (steps tour3_replaced) 1 = Some stepB2
   \<and> step_onNext stepB2 = Some 8
   \<and> HandleNext \<in> offered (view tour3_replaced at1_replaced)
   \<and> trace (commit tour3_replaced (handleNext tour3_replaced at1_replaced))
       = trace at1 @ [StepOnNext 4, StepOnEnter 5]
   \<and> StepOnNext 8 \<notin> set (trace (commit tour3_replaced (handleNext tour3_replaced at1_replaced)))"
  by code_simp

text \<open>
  Where the step shown is the \<open>i\<close>-th step of the list, \<open>advance()\<close> does what C2 says.
  It first invokes the \<open>onNext\<close> of that step, whatever comes next. Then, if
  \<open>i + 1 < length steps\<close>, the tour is at \<open>Step (i + 1)\<close> and the \<open>onEnter\<close> of that
  step has been invoked; otherwise, if there is an outro, the tour shows the outro and
  the \<open>onEnter\<close> of the outro has been invoked; otherwise the tour closes: the index
  is 0, both flags and the latch are cleared, the \<open>onClose\<close> of the tour has been
  invoked, and once the parent renders the tour with \<^verbatim>\<open>open\<close> false nothing is shown.
\<close>

lemma advance_from_step:
  assumes "at_step p s i"
  shows "let c = steps p ! i; s' = commit p (handleNext p s) in
     if i + 1 < length (steps p)
     then at_step p s' (i + 1)
        \<and> trace s' = trace s @ fire StepOnNext (step_onNext c)
                       @ fire StepOnEnter (step_onEnter (steps p ! (i + 1)))
     else case outro p of
       Some out \<Rightarrow> phase p s' = Outro
         \<and> trace s' = trace s @ fire StepOnNext (step_onNext c)
                        @ fire OutroOnEnter (outro_onEnter out)
     | None \<Rightarrow> index (handleNext p s) = 0
         \<and> \<not> showIntro (handleNext p s) \<and> \<not> showOutro (handleNext p s)
         \<and> \<not> introShownRef (handleNext p s)
         \<and> trace (handleNext p s) = trace s @ fire StepOnNext (step_onNext c)
                                      @ fire PropsOnClose (onClose p)
         \<and> phase (p\<lparr> open' := False \<rparr>) (commit (p\<lparr> open' := False \<rparr>) (handleNext p s))
             = Closed"
proof (cases "i + 1 < length (steps p)")
  case True
  let ?t = "trace s @ fire StepOnNext (step_onNext (steps p ! i))"
  have h: "handleNext p s = s\<lparr> trace := ?t, index := int (i + 1) \<rparr>"
    using True by (simp add: handleNext_at_step [OF assms] Let_def)
  from commit_moved_index [OF assms True _ h] True show ?thesis
    by (simp add: Let_def)
next
  case False
  show ?thesis
  proof (cases "outro p")
    case None
    have "phase (p\<lparr> open' := False \<rparr>) (commit (p\<lparr> open' := False \<rparr>) (handleNext p s)) = Closed"
      by (simp add: phase_def view_def)
    with False None show ?thesis
      by (simp add: handleNext_at_step [OF assms] handleClose_def Let_def)
  next
    case (Some out)
    let ?t = "trace s @ fire StepOnNext (step_onNext (steps p ! i))
                @ fire OutroOnEnter (outro_onEnter out)"
    have h: "handleNext p s = s\<lparr> trace := ?t, showOutro := True \<rparr>"
      using False Some by (simp add: handleNext_at_step [OF assms] Let_def)
    from assms have "settled p (s\<lparr> trace := ?t, showOutro := True \<rparr>)"
      by (simp add: at_step_def settled_outro_update)
    then have c: "commit p (handleNext p s) = s\<lparr> trace := ?t, showOutro := True \<rparr>"
      by (simp add: h commit_idle)
    from assms Some have "phase p (s\<lparr> trace := ?t, showOutro := True \<rparr>) = Outro"
      by (simp add: phase_def view_def at_step_def)
    with False Some show ?thesis
      by (simp add: c Let_def)
  qed
qed

lemma advance_from_step_example:
  "at_step tour3 at0 0
   \<and> at_step tour3 (commit tour3 (handleNext tour3 at0)) 1
   \<and> trace (commit tour3 (handleNext tour3 at0)) = trace at0 @ [StepOnNext 2, StepOnEnter 3]
   \<and> at_step tour3 at2 2
   \<and> phase tour3 (commit tour3 (handleNext tour3 at2)) = Outro
   \<and> trace (commit tour3 (handleNext tour3 at2)) = trace at2 @ [StepOnNext 6, OutroOnEnter 21]
   \<and> at_step opened_one only0 0
   \<and> index (handleNext opened_one only0) = 0
   \<and> \<not> introShownRef (handleNext opened_one only0)
   \<and> trace (handleNext opened_one only0) = trace only0 @ [StepOnNext 2, PropsOnClose 30]"
proof -
  have h0: "at_step tour3 at0 0" by code_simp
  have h2: "at_step tour3 at2 2" by code_simp
  have h1: "at_step opened_one only0 0" by code_simp
  from advance_from_step [OF h0] advance_from_step [OF h2] advance_from_step [OF h1] h0 h2 h1
  show ?thesis
    by (simp add: Let_def tour3_def opened_one_def stepA_def stepB_def stepC_def outroO_def)
qed

subsection \<open>C3: the list of steps shrinks under the index\<close>




subsection \<open>C4: going back from a step\<close>

text \<open>
  C4, as stated, says that \<open>retreat()\<close> fires no callback for the step it goes back to.
  Going back changes the index, so the effect of lines 110 to 113 invokes the
  \<open>onEnter\<close> of that step: going back from \<open>Step 2\<close> invokes the \<open>onEnter\<close> of the
  second step.
\<close>

theorem retreat_fires_onEnter_counterexample:
  "at_step tour3 at2 2
   \<and> phase tour3 (commit tour3 (handlePrev tour3 at2)) = Step 1
   \<and> trace (commit tour3 (handlePrev tour3 at2)) = trace at2 @ [StepOnEnter 3]
   \<and> trace (commit tour3 (handlePrev tour3 at2)) \<noteq> trace at2"
  by code_simp

text \<open>
  C4, amended: for every \<open>i > 0\<close>, \<open>retreat()\<close> from \<open>Step i\<close> leads to \<open>Step (i - 1)\<close>,
  invokes no \<open>onNext\<close>, and invokes the \<open>onEnter\<close> of the step it goes back to;
  \<open>retreat()\<close> at \<open>Step 0\<close> changes nothing and fires no callback, and the view at
  \<open>Step 0\<close> does not offer it.
\<close>

theorem retreat_from_step:
  assumes "at_step p s i"
  shows "if 0 < i
     then at_step p (commit p (handlePrev p s)) (i - 1)
        \<and> trace (commit p (handlePrev p s))
            = trace s @ fire StepOnEnter (step_onEnter (steps p ! (i - 1)))
     else handlePrev p s = s \<and> HandlePrev \<notin> offered (view p s)"
proof (cases "0 < i")
  case True
  with assms have j: "i - 1 < length (steps p)" "i - 1 \<noteq> i"
    by (auto simp add: at_step_def)
  from assms True have h: "handlePrev p s = s\<lparr> trace := trace s, index := int (i - 1) \<rparr>"
    by (simp add: handlePrev_def at_step_def of_nat_diff)
  from commit_moved_index [OF assms j h] True show ?thesis
    by simp
next
  case False
  with assms show ?thesis
    by (simp add: handlePrev_def at_step_def view_def)
qed

theorem retreat_from_step_witness:
  "at_step tour3 at2 2
   \<and> at_step tour3 (commit tour3 (handlePrev tour3 at2)) 1
   \<and> trace (commit tour3 (handlePrev tour3 at2)) = trace at2 @ [StepOnEnter 3]
   \<and> at_step tour3 at0 0 \<and> handlePrev tour3 at0 = at0"
proof -
  have h0: "at_step tour3 at0 0" by code_simp
  have h2: "at_step tour3 at2 2" by code_simp
  from retreat_from_step [OF h0] retreat_from_step [OF h2] h0 h2 show ?thesis
    by (simp add: tour3_def stepA_def stepB_def stepC_def)
qed

subsection \<open>C5: going back from the outro\<close>

text \<open>
  C5 says that \<open>retreat()\<close> from the outro leads to the last step. The outro is
  entered with the index still at the last step, and \<open>handleOutroPrev\<close> lowers it by
  one: with three steps the tour reaches the outro from \<open>Step 2\<close>, and going back
  shows \<open>Step 1\<close>.
\<close>

theorem outro_retreat_skips_last_step:
  "phase tour3 at2 = Step 2 \<and> phase tour3 at_outro = Outro
   \<and> HandleOutroPrev \<in> offered (view tour3 at_outro)
   \<and> phase tour3 (commit tour3 (handleOutroPrev tour3 at_outro)) = Step 1
   \<and> int (length (steps tour3)) - 1 = 2"
  by code_simp

subsection \<open>C6: closing\<close>

text \<open>
  C6 says that \<open>close()\<close> fires the \<open>onClose\<close> of the intro when the intro is active and
  defines one. \<open>handleClose\<close> calls the \<open>onClose\<close> of the tour only: closing a tour
  that shows an intro with an \<open>onClose\<close> of its own adds one event to the trace, the
  tour's.
\<close>

theorem close_never_fires_intro_onClose:
  "phase tour3_intro at_intro = Intro
   \<and> Option.bind (intro tour3_intro) intro_onClose = Some 12
   \<and> HandleClose \<in> offered (view tour3_intro at_intro)
   \<and> index (handleClose tour3_intro at_intro) = 0
   \<and> \<not> introShownRef (handleClose tour3_intro at_intro)
   \<and> trace (handleClose tour3_intro at_intro) = trace at_intro @ [PropsOnClose 30]
   \<and> IntroOnClose 12 \<notin> set (trace (handleClose tour3_intro at_intro))"
  by code_simp

subsection \<open>C7: the phase after opening\<close>

text \<open>
  C7 says that a tour opened without an intro and with a non-empty list of steps is at
  \<open>Step 0\<close>. The render reads the steps from \<open>stepsRef\<close>, which an effect updates
  after the render, and \<open>current\<close> is not recomputed when only the steps change: a
  component mounted closed with no steps and then opened with one step renders
  nothing.
\<close>

theorem open_with_new_steps_renders_nothing:
  "\<not> open' closed_empty \<and> open' opened_one \<and> intro opened_one = None
   \<and> steps opened_one \<noteq> []
   \<and> phase opened_one (commit opened_one (commit closed_empty (mount closed_empty))) = Closed"
  by code_simp

text \<open>
  Opened with the list of steps that the closed component was last rendered with, the
  tour does start as C7 says.
\<close>

lemma open_initial_phase:
  assumes st: "settled p0 s" and cl: "\<not> open' p0" and i0: "index s = 0"
    and fl: "\<not> showIntro s" "\<not> showOutro s" and la: "\<not> introShownRef s"
    and op: "open' p" and same: "steps p = steps p0"
  shows "phase p (commit p s) =
     (if intro p \<noteq> None then Intro else if steps p \<noteq> [] then Step 0 else Closed)"
proof -
  define s1 where "s1 = pass p s"
  from st cl op have nl: "deps_latch s \<noteq> Some (open' p, map_option intro_ident (intro p))"
    by (auto simp: settled_def)
  have idx1: "index s1 = 0"
    using i0 op by (simp add: s1_def pass_index)
  have si1: "showIntro s1 = (intro p \<noteq> None)" and so1: "\<not> showOutro s1"
    using nl op fl la by (simp_all add: s1_def pass_flags)
  have cur1: "current_val s1 = steps_at (steps p) 0"
    using st cl op fl i0 same
    by (simp add: s1_def pass_current_val render_memo_current settled_def)
  show ?thesis
  proof (cases "intro p")
    case None
    with idx1 si1 so1 i0 fl have "cells (pass p s) = cells s"
      by (simp add: cells_def s1_def)
    then have "commit p s = s1"
      by (simp add: commit_one s1_def)
    with None op idx1 si1 so1 cur1 show ?thesis
      by (cases "steps p") (simp_all add: phase_def view_def steps_at_def)
  next
    case (Some it)
    define s2 where "s2 = pass p s1"
    have l1: "deps_latch s1 = Some (open' p, map_option intro_ident (intro p))"
      by (simp add: s1_def)
    have si2: "showIntro s2" and so2: "\<not> showOutro s2" and idx2: "index s2 = 0"
      using pass_cells_latched [OF l1] si1 so1 idx1 Some by (simp_all add: s2_def)
    from Some si1 fl have ch: "cells (pass p s) \<noteq> cells s"
      by (auto simp: cells_def s1_def)
    from si1 si2 so1 so2 idx1 idx2 Some have "cells (pass p (pass p s)) = cells (pass p s)"
      by (simp add: cells_def s1_def s2_def)
    from commit_two [OF ch this] have "commit p s = s2"
      by (simp add: s1_def s2_def)
    with Some op si2 show ?thesis
      by (simp add: phase_def view_def)
  qed
qed

subsection \<open>C8: the tooltip stays inside the viewport\<close>

text \<open>
  C8, as stated, puts the horizontal position inside the interval from 16 to
  \<open>viewportWidth - 320\<close> for every viewport. In a viewport narrower than 336 that
  interval is empty, and the code answers 16: with a target at \<open>left = 100\<close> in a
  viewport 300 wide the tooltip is at 16, which is more than \<open>300 - 320\<close>.
\<close>

theorem tooltip_within_viewport_counterexample:
  "tooltipLeft 100 300 = 16 \<and> \<not> tooltipLeft 100 300 \<le> 300 - 320"
  by (simp add: tooltipLeft_def)

text \<open>
  C8, amended: for every target geometry and viewport size the horizontal position is
  \<open>clamp(left, 16, max(16, viewportWidth - 320))\<close> and lies between 16 and
  \<open>max(16, viewportWidth - 320)\<close>, hence between 16 and \<open>viewportWidth - 320\<close> whenever
  the viewport is at least 336 wide; the vertical position is
  \<open>min(bottom + 12, viewportHeight - 160)\<close> and never exceeds \<open>viewportHeight - 160\<close>.
\<close>

theorem tooltip_placement_bounds:
  "tooltipLeft l vw = spec_clamp l 16 (max 16 (vw - 320))
   \<and> tooltipTop b vh = min (b + 12) (vh - 160)
   \<and> 16 \<le> tooltipLeft l vw
   \<and> tooltipLeft l vw \<le> max 16 (vw - 320)
   \<and> (336 \<le> vw \<longrightarrow> tooltipLeft l vw \<le> vw - 320)
   \<and> tooltipTop b vh \<le> vh - 160"
  by (auto simp: tooltipLeft_def tooltipTop_def spec_clamp_def)

theorem tooltip_placement_bounds_witness:
  "(336::real) \<le> 1280 \<and> tooltipLeft 1200 1280 = 960 \<and> tooltipLeft 1200 1280 \<le> 1280 - 320
   \<and> tooltipTop 700 720 = 560"
  using tooltip_placement_bounds [of 1200 1280 700 720]
  by (simp add: tooltipLeft_def tooltipTop_def)

subsection \<open>C9: the keyboard\<close>

text \<open>
  C9 says that Escape closes the tour and ArrowRight advances it in every phase. The
  key listener belongs to \<open>HighlightTour\<close>, which is rendered for a step only: while
  the intro is shown, Escape and ArrowRight do nothing, although the buttons of the
  intro offer both actions.
\<close>

theorem intro_ignores_keys:
  "open' tour3_intro \<and> phase tour3_intro at_intro = Intro
   \<and> keydown tour3_intro at_intro ''Escape'' = ignored
   \<and> HandleIntroNext \<in> offered (view tour3_intro at_intro)
   \<and> keydown tour3_intro at_intro ''ArrowRight'' = ignored"
  by code_simp

subsection \<open>C10: the intro and the outro are never shown together\<close>

text \<open>
  C10, as stated, holds of every reachable state. A parent may leave \<^verbatim>\<open>open\<close> true
  after the tour was closed from inside (\<^verbatim>\<open>onClose\<close> is optional), and may pass a new
  intro object with every render. Then closing the intro clears the latch, advancing
  from the only step shows the outro, and the next render of the parent runs the latch
  effect again, which shows the intro on top: both flags are true.
\<close>

theorem intro_and_outro_both_shown_counterexample:
  "reach loose' loose3 \<and> showIntro loose3 \<and> showOutro loose3"
proof -
  have "showIntro loose3 \<and> showOutro loose3" by code_simp
  with loose_reach show ?thesis by simp
qed

text \<open>
  C10, amended: in every state reachable through the effects and handlers of the
  component, with a parent that passes \<^verbatim>\<open>onClose\<close> and answers it by rendering the
  tour with \<^verbatim>\<open>open\<close> false, the intro flag and the outro flag are never both true.
\<close>

theorem intro_and_outro_exclusive:
  "reach_closing p s \<Longrightarrow> \<not> (showIntro s \<and> showOutro s)"
  using reach_closing_inv [of p s] by (simp add: tour_inv_def flags_ok_def)

theorem intro_and_outro_exclusive_witness:
  "reach_closing tour3 at_outro \<and> showOutro at_outro \<and> \<not> showIntro at_outro
   \<and> reach_closing tour3_intro at_intro \<and> showIntro at_intro \<and> \<not> showOutro at_intro
   \<and> reach_closing tour3_intro full_outro \<and> showOutro full_outro \<and> \<not> showIntro full_outro"
proof -
  have "showOutro at_outro" "showIntro at_intro" "showOutro full_outro" by code_simp+
  with intro_and_outro_exclusive [OF at_outro_reach_closing]
    intro_and_outro_exclusive [OF full_reach_closing(1)]
    intro_and_outro_exclusive [OF full_reach_closing(2)]
    at_outro_reach_closing full_reach_closing
  show ?thesis by simp
qed

end
